theory Spec2Isabelle
  imports Main "HOL-Library.Sublist"
begin

section \<open>The import script \<^verbatim>\<open>import_external_files_OF.py\<close>\<close>

text \<open>
  The script is one straight-line procedure: it lists a folder, loads every file whose
  name ends in \<^verbatim>\<open>.csv\<close> into the table \<^verbatim>\<open>OF.External_file_staging\<close>, moves the file to the
  subfolder \<^verbatim>\<open>loaded\<close>, and finally runs one \<^verbatim>\<open>UPDATE\<close> statement per field of a fixed list.
  Its state is the two folders and the table; they are made explicit in the record
  \<open>world\<close> and threaded through every step. An exception of the script is a value
  \<open>Inl (e, w)\<close>, where \<open>w\<close> is the state the aborted run leaves behind.
\<close>

subsection \<open>Data\<close>

text \<open>
  A cell read with \<^verbatim>\<open>dtype=str\<close> is a string or missing (\<open>None\<close>, pandas' NaN, SQL's NULL).
  A frame has its column labels, which may repeat, and its rows by position.
\<close>

type_synonym cell = "string option"

record dataframe =
  columns :: "string list"
  rows :: "cell list list"

text \<open>
  A file is what \<^verbatim>\<open>pd.read_csv(file_path, dtype=str)\<close> makes of it: \<open>None\<close> when the call
  raises (not a readable file, no header, malformed CSV), the frame otherwise. A folder
  lists its entries by name, in the order \<^verbatim>\<open>os.listdir\<close> reports them.
\<close>

type_synonym csv_file = "dataframe option"

type_synonym directory = "(string \<times> csv_file) list"

text \<open>
  The staging table exists before the run (the script never creates it explicitly and
  its \<^verbatim>\<open>UPDATE\<close> statements need it). It has column names and rows; a row gives the cell
  of each column. Names and cell values are compared by exact equality.
\<close>

type_synonym row = "(string \<times> cell) list"

record table =
  tcols :: "string list"
  trows :: "row list"

datatype error = LoadError | MoveError | UpdateError

text \<open>
  The steps a run has completed, in order. The script keeps no such list; it is carried
  along only so that statements about the order of steps can be written down, and no
  step reads it.
\<close>

datatype event = Loaded string | Moved string | Cleaned string

record world =
  source_dir :: directory
  archive_dir :: "directory option"
  staging :: table
  log_lines :: "string list"
  trace :: "event list"

type_synonym outcome = "(error \<times> world) + world"

definition state_of :: "outcome \<Rightarrow> world" where
  "state_of r = (case r of Inl (e, w) \<Rightarrow> w | Inr w \<Rightarrow> w)"

subsection \<open>Library calls\<close>

text \<open>
  Each call is given the result that the data decide: the frame of a file, the rows a
  table receives, the place of a file. Each kind of error has the cause that the data
  decide, too (a file that cannot be read, a frame that does not fit the table, a
  missing archive folder, a missing column); a failure of the machine around the script,
  such as a lost connection, is not part of the model.
\<close>

text \<open>\<^verbatim>\<open>filename.endswith(".csv")\<close>\<close>

definition endswith :: "string \<Rightarrow> string \<Rightarrow> bool" where
  "endswith s suf \<longleftrightarrow> length suf \<le> length s \<and> drop (length s - length suf) s = suf"

text \<open>\<^verbatim>\<open>os.listdir(folder_path)\<close>\<close>

definition listdir :: "world \<Rightarrow> string list" where
  "listdir w = map fst (source_dir w)"

text \<open>\<^verbatim>\<open>pd.read_csv(file_path, dtype=str)\<close>, the path being the folder joined with the name.\<close>

definition read_csv :: "string \<Rightarrow> world \<Rightarrow> error + dataframe" where
  "read_csv filename w =
     (case map_of (source_dir w) filename of
        None \<Rightarrow> Inl LoadError
      | Some None \<Rightarrow> Inl LoadError
      | Some (Some df) \<Rightarrow> Inr df)"

text \<open>
  \<^verbatim>\<open>df.rename(columns={old: new})\<close> relabels: every label equal to \<open>old\<close> becomes \<open>new\<close>,
  and the columns, their order and their values stay as they are.
\<close>

definition rename :: "string \<Rightarrow> string \<Rightarrow> dataframe \<Rightarrow> dataframe" where
  "rename old new df = df\<lparr>columns := map (\<lambda>c. if c = old then new else c) (columns df)\<rparr>"

text \<open>
  \<^verbatim>\<open>df.to_sql('External_file_staging', engine, schema='OF', if_exists="append", index=False)\<close>.
  The frame is first described as a table, which cannot name a column twice. A frame
  without rows sends no statement. Otherwise the rows are inserted under the frame's
  labels, in one transaction that the call commits: every label must be a column of the
  table, the columns of the table that the frame lacks are NULL in the new rows, and the
  rows already there are not touched.
\<close>

definition insert_row :: "string list \<Rightarrow> string list \<Rightarrow> cell list \<Rightarrow> row" where
  "insert_row tc cs vals =
     map (\<lambda>c. (c, case map_of (zip cs vals) c of None \<Rightarrow> None | Some v \<Rightarrow> v)) tc"

definition to_sql :: "dataframe \<Rightarrow> table \<Rightarrow> error + table" where
  "to_sql df t =
     (if \<not> distinct (columns df) then Inl LoadError
      else if rows df = [] then Inr t
      else if list_all (\<lambda>c. c \<in> set (tcols t)) (columns df)
        then Inr (t\<lparr>trows := trows t @ map (insert_row (tcols t) (columns df)) (rows df)\<rparr>)
      else Inl LoadError)"

text \<open>
  \<^verbatim>\<open>shutil.move(file_path, file_path2)\<close>: the file leaves the folder and is in the subfolder
  \<^verbatim>\<open>loaded\<close> under the same name, replacing a file of that name there. It raises when the
  file or the subfolder is missing.
\<close>

definition dir_remove :: "string \<Rightarrow> directory \<Rightarrow> directory" where
  "dir_remove name d = filter (\<lambda>p. fst p \<noteq> name) d"

definition dir_put :: "string \<Rightarrow> csv_file \<Rightarrow> directory \<Rightarrow> directory" where
  "dir_put name f d = dir_remove name d @ [(name, f)]"

definition shutil_move :: "string \<Rightarrow> world \<Rightarrow> error + world" where
  "shutil_move filename w =
     (case map_of (source_dir w) filename of
        None \<Rightarrow> Inl MoveError
      | Some f \<Rightarrow>
          (case archive_dir w of
             None \<Rightarrow> Inl MoveError
           | Some a \<Rightarrow>
               Inr (w\<lparr>source_dir := dir_remove filename (source_dir w),
                      archive_dir := Some (dir_put filename f a)\<rparr>)))"

text \<open>
  The statement
  \<^verbatim>\<open>Update ... SET i = NULL WHERE i in ('Inf', '-Inf', 'NA', 'Null', 'NULL', 'Nan', 'NaN', '')\<close>
  as the connection that executes it sees the table while its transaction is open: in
  every row, a cell of column \<open>i\<close> holding one of the listed strings is NULL. It raises
  when the table has no column \<open>i\<close>.
\<close>

definition sentinels :: "string list" where
  "sentinels = [''Inf'', ''-Inf'', ''NA'', ''Null'', ''NULL'', ''Nan'', ''NaN'', '''']"

definition null_if_sentinel :: "cell \<Rightarrow> cell" where
  "null_if_sentinel v =
     (case v of None \<Rightarrow> None | Some s \<Rightarrow> if s \<in> set sentinels then None else Some s)"

definition update_row :: "string \<Rightarrow> row \<Rightarrow> row" where
  "update_row i r = map (\<lambda>(n, v). (n, if n = i then null_if_sentinel v else v)) r"

definition connection_execute :: "string \<Rightarrow> table \<Rightarrow> error + table" where
  "connection_execute i t =
     (if i \<in> set (tcols t) then Inr (t\<lparr>trows := map (update_row i) (trows t)\<rparr>)
      else Inl UpdateError)"

text \<open>
  The block
  \<^verbatim>\<open>with engine.connect() as connection: results = connection.execute(sql.text(sql1))\<close>.
  The connection opens a transaction for the statement. The block calls neither
  \<^verbatim>\<open>commit\<close> nor \<^verbatim>\<open>begin\<close>, so when it ends the connection is closed with the transaction
  still open, and the transaction is rolled back: the table is as it was before the
  block. This is SQLAlchemy from version 2.0 on, the version in which \<^verbatim>\<open>to_sql\<close> refuses
  a frame with a repeated label. An error of the statement leaves the block as it is.
\<close>

definition execute_update :: "string \<Rightarrow> table \<Rightarrow> error + table" where
  "execute_update i t =
     (case connection_execute i t of
        Inl e \<Rightarrow> Inl e
      | Inr t' \<Rightarrow> Inr t)"

subsection \<open>The script\<close>

text \<open>The three \<^verbatim>\<open>df = df.rename(columns={...: 'Column_0'})\<close> lines, in their order.\<close>

definition rename_aliases :: "dataframe \<Rightarrow> dataframe" where
  "rename_aliases df =
     (let df1 = rename ''Unnamed: 0'' ''Column_0'' df;
          df2 = rename ''ValueID'' ''Column_0'' df1;
          df3 = rename ''ID'' ''Column_0'' df2
      in df3)"

text \<open>
  The body of the loop over the folder, for one name of the listing: read, rename,
  append, move.
\<close>

definition process_file :: "string \<Rightarrow> world \<Rightarrow> outcome" where
  "process_file filename w =
     (if endswith filename ''.csv'' then
        (case read_csv filename w of
           Inl e \<Rightarrow> Inl (e, w)
         | Inr df \<Rightarrow>
            (case to_sql (rename_aliases df) (staging w) of
               Inl e \<Rightarrow> Inl (e, w)
             | Inr t \<Rightarrow>
                (let w1 = w\<lparr>staging := t, trace := trace w @ [Loaded filename]\<rparr>
                 in case shutil_move filename w1 of
                      Inl e \<Rightarrow> Inl (e, w1)
                    | Inr w2 \<Rightarrow> Inr (w2\<lparr>trace := trace w2 @ [Moved filename]\<rparr>))))
      else Inr w)"

fun file_loop :: "string list \<Rightarrow> world \<Rightarrow> outcome" where
  "file_loop [] w = Inr w"
| "file_loop (filename # rest) w =
     (case process_file filename w of
        Inl x \<Rightarrow> Inl x
      | Inr w' \<Rightarrow> file_loop rest w')"

definition fields :: "string list" where
  "fields = [''numerator'', ''denominator'', ''IndicatorValue'', ''lowerCI95'', ''upperCI95'']"

text \<open>The loop over the fields: a log line, then the statement.\<close>

fun cleanup_loop :: "string list \<Rightarrow> world \<Rightarrow> outcome" where
  "cleanup_loop [] w = Inr w"
| "cleanup_loop (i # rest) w =
     (let w1 = w\<lparr>log_lines := log_lines w @ [''Cleaning '' @ i @ '' column.'']\<rparr>
      in case execute_update i (staging w1) of
           Inl e \<Rightarrow> Inl (e, w1)
         | Inr t \<Rightarrow> cleanup_loop rest (w1\<lparr>staging := t, trace := trace w1 @ [Cleaned i]\<rparr>))"

definition sentinel_cleaner :: "world \<Rightarrow> outcome" where
  "sentinel_cleaner w = cleanup_loop fields w"

text \<open>The whole script: the listing is taken once, before the first file is touched.\<close>

definition run :: "world \<Rightarrow> outcome" where
  "run w =
     (case file_loop (listdir w) w of
        Inl x \<Rightarrow> Inl x
      | Inr w' \<Rightarrow> sentinel_cleaner w')"

subsection \<open>Notions used to state the properties\<close>

text \<open>The cell of row \<open>k\<close> in column \<open>c\<close>; \<open>None\<close> when the row has no such column.\<close>

definition cell_at :: "table \<Rightarrow> nat \<Rightarrow> string \<Rightarrow> cell option" where
  "cell_at t k c = map_of (trows t ! k) c"

text \<open>The file that the archive folder holds under a name, if any.\<close>

definition archived :: "world \<Rightarrow> string \<Rightarrow> csv_file option" where
  "archived w g = (case archive_dir w of None \<Rightarrow> None | Some a \<Rightarrow> map_of a g)"

text \<open>
  The state after the blocks for the columns \<open>ds\<close> have run and the log lines for the
  columns \<open>ms\<close> have been written. The table is the one of the state before.
\<close>

definition cleaned_world :: "string list \<Rightarrow> string list \<Rightarrow> world \<Rightarrow> world" where
  "cleaned_world ds ms w =
     w\<lparr>log_lines := log_lines w @ map (\<lambda>i. ''Cleaning '' @ i @ '' column.'') ms,
       trace := trace w @ map Cleaned ds\<rparr>"

text \<open>
  The renaming as the specification words it: the three aliases of the identifying
  column go to the canonical name, every other name is passed through.
\<close>

definition canonical :: "string \<Rightarrow> string" where
  "canonical c = (if c \<in> {''Unnamed: 0'', ''ValueID'', ''ID''} then ''Column_0'' else c)"

text \<open>
  A sequence of steps in which every move of a file comes after a load of that file;
  \<open>ls\<close> are the files loaded before the sequence starts.
\<close>

fun archived_after_load :: "string list \<Rightarrow> event list \<Rightarrow> bool" where
  "archived_after_load ls [] = True"
| "archived_after_load ls (Loaded f # es) = archived_after_load (f # ls) es"
| "archived_after_load ls (Moved f # es) = (f \<in> set ls \<and> archived_after_load ls es)"
| "archived_after_load ls (Cleaned c # es) = archived_after_load ls es"

text \<open>The steps that processing the names \<open>fs\<close> without an error consists of.\<close>

definition file_events :: "string list \<Rightarrow> event list" where
  "file_events fs = concat (map (\<lambda>f. [Loaded f, Moved f]) (filter (\<lambda>f. endswith f ''.csv'') fs))"

subsection \<open>Concrete states\<close>

text \<open>
  A table with one row holding sentinels and ordinary values, and a state with that
  table, an empty folder and an empty archive.
\<close>

definition staged_table :: table where
  "staged_table =
     \<lparr>tcols = [''Column_0'', ''numerator'', ''denominator'', ''IndicatorValue'',
               ''lowerCI95'', ''upperCI95''],
      trows = [[(''Column_0'', Some ''1''), (''numerator'', Some ''NaN''),
                (''denominator'', Some ''0.5''), (''IndicatorValue'', Some ''Inf''),
                (''lowerCI95'', None), (''upperCI95'', Some '''')]]\<rparr>"

definition table_world :: world where
  "table_world =
     \<lparr>source_dir = [], archive_dir = Some [], staging = staged_table,
      log_lines = [], trace = []\<rparr>"

text \<open>
  A file with the identifying column under the alias \<^verbatim>\<open>ID\<close> and one data row, a folder
  holding it next to an entry that is not a CSV file by its name, and the state that
  processing the file leaves.
\<close>

definition a_csv :: dataframe where
  "a_csv = \<lparr>columns = [''ID'', ''numerator''], rows = [[Some ''7'', Some ''0'']]\<rparr>"

definition folder_world :: world where
  "folder_world =
     \<lparr>source_dir = [(''a.csv'', Some a_csv), (''notes.txt'', None)],
      archive_dir = Some [], staging = staged_table, log_lines = [], trace = []\<rparr>"

definition a_row :: row where
  "a_row = [(''Column_0'', Some ''7''), (''numerator'', Some ''0''), (''denominator'', None),
            (''IndicatorValue'', None), (''lowerCI95'', None), (''upperCI95'', None)]"

definition loaded_world :: world where
  "loaded_world =
     \<lparr>source_dir = [(''notes.txt'', None)],
      archive_dir = Some [(''a.csv'', Some a_csv)],
      staging = staged_table\<lparr>trows := trows staged_table @ [a_row]\<rparr>,
      log_lines = [], trace = [Loaded ''a.csv'', Moved ''a.csv'']\<rparr>"

text \<open>A file with a header and no data row, alone in its folder.\<close>

definition header_csv :: dataframe where
  "header_csv = \<lparr>columns = [''ValueID'', ''numerator''], rows = []\<rparr>"

definition header_world :: world where
  "header_world =
     \<lparr>source_dir = [(''h.csv'', Some header_csv)],
      archive_dir = Some [], staging = staged_table, log_lines = [], trace = []\<rparr>"

text \<open>A frame with two of the aliases.\<close>

definition two_alias_csv :: dataframe where
  "two_alias_csv = \<lparr>columns = [''ID'', ''ValueID''], rows = [[Some ''i'', Some ''v'']]\<rparr>"


text \<open>A folder whose second file cannot be read, and a table that lacks a field.\<close>

definition broken_world :: world where
  "broken_world =
     \<lparr>source_dir = [(''a.csv'', Some a_csv), (''bad.csv'', None), (''c.csv'', Some a_csv)],
      archive_dir = Some [], staging = staged_table, log_lines = [], trace = []\<rparr>"

definition broken_world_1 :: world where
  "broken_world_1 =
     \<lparr>source_dir = [(''bad.csv'', None), (''c.csv'', Some a_csv)],
      archive_dir = Some [(''a.csv'', Some a_csv)],
      staging = staged_table\<lparr>trows := trows staged_table @ [a_row]\<rparr>,
      log_lines = [], trace = [Loaded ''a.csv'', Moved ''a.csv'']\<rparr>"

definition narrow_world :: world where
  "narrow_world =
     \<lparr>source_dir = [(''notes.txt'', None)],
      archive_dir = Some [],
      staging = \<lparr>tcols = [''Column_0'', ''numerator''],
                 trows = [[(''Column_0'', Some ''1''), (''numerator'', Some ''NA'')]]\<rparr>,
      log_lines = [], trace = []\<rparr>"

text \<open>A file with a header that has two of the aliases and no data row, alone in its folder.\<close>

definition two_alias_header_csv :: dataframe where
  "two_alias_header_csv = \<lparr>columns = [''ID'', ''ValueID''], rows = []\<rparr>"

definition two_alias_header_world :: world where
  "two_alias_header_world =
     \<lparr>source_dir = [(''h2.csv'', Some two_alias_header_csv)],
      archive_dir = Some [], staging = staged_table, log_lines = [], trace = []\<rparr>"

section \<open>Properties\<close>

subsection \<open>The cleanup statements\<close>

text \<open>Inside its transaction the statement does what it is written for.\<close>

lemma map_of_update_row:
  "map_of (update_row i r) c =
     map_option (\<lambda>v. if c = i then null_if_sentinel v else v) (map_of r c)"
  by (induction r) (auto simp: update_row_def)

lemma connection_execute_cell:
  assumes "connection_execute i t = Inr t'"
    and "k < length (trows t)"
    and "cell_at t k i = Some (Some s)"
  shows "cell_at t' k i = Some (if s \<in> set sentinels then None else Some s)"
proof -
  from assms(1) have "trows t' = map (update_row i) (trows t)"
    by (auto simp: connection_execute_def split: if_splits)
  with assms(2,3) show ?thesis
    by (simp add: cell_at_def map_of_update_row null_if_sentinel_def)
qed

text \<open>The block around the statement gives the table back as it was.\<close>

lemma execute_update_eq:
  "execute_update i t = (if i \<in> set (tcols t) then Inr t else Inl UpdateError)"
  by (simp add: execute_update_def connection_execute_def)

text \<open>
  The loop over the fields in closed form: the blocks run up to the first field the
  table lacks; the log line of that field is still written.
\<close>

lemma cleanup_loop_closed:
  "cleanup_loop fs w =
     (let ds = takeWhile (\<lambda>c. c \<in> set (tcols (staging w))) fs
      in if ds = fs then Inr (cleaned_world ds fs w)
         else Inl (UpdateError, cleaned_world ds (take (Suc (length ds)) fs) w))"
proof (induction fs arbitrary: w)
  case Nil
  show ?case by (simp add: cleaned_world_def)
next
  case (Cons i rest)
  show ?case
  proof (cases "i \<in> set (tcols (staging w))")
    case False
    then show ?thesis
      by (simp add: execute_update_eq cleaned_world_def)
  next
    case True
    then show ?thesis
      by (simp add: execute_update_eq Cons.IH Let_def cleaned_world_def)
  qed
qed

lemma staging_cleanup_loop: "staging (state_of (cleanup_loop fs w)) = staging w"
  by (simp add: cleanup_loop_closed Let_def state_of_def cleaned_world_def)

text \<open>
  C5. The Sentinel Cleaner is idempotent: from every state, the table after two passes
  in succession is exactly the table after one pass. This covers a pass that stops at a
  column the table lacks: the second pass stops at the same column.
\<close>

theorem sentinel_cleaner_idempotent:
  "staging (state_of (sentinel_cleaner (state_of (sentinel_cleaner w)))) =
     staging (state_of (sentinel_cleaner w))"
  by (simp add: sentinel_cleaner_def staging_cleanup_loop)

text \<open>
  C1 says that after the Sentinel Cleaner has run, a cell of one of the five columns
  that held one of the strings Inf, -Inf, NA, Null, NULL, Nan, NaN or the empty string
  is NULL, and that a cell holding any other string is unchanged. The script does not
  reach the first half: each statement nulls the cells inside a transaction that is
  never committed. On the table whose one row holds NaN in numerator, Inf in
  IndicatorValue and the empty string in upperCI95, the Sentinel Cleaner runs its five
  statements without an error and leaves the table exactly as it was, so these cells
  still hold NaN, Inf and the empty string.
\<close>

theorem sentinel_cleaner_leaves_sentinels:
  "sentinel_cleaner table_world = Inr (cleaned_world fields fields table_world)
   \<and> trace (cleaned_world fields fields table_world) = map Cleaned fields
   \<and> staging (cleaned_world fields fields table_world) = staging table_world
   \<and> cell_at (staging (cleaned_world fields fields table_world)) 0 ''numerator''
       = Some (Some ''NaN'')
   \<and> cell_at (staging (cleaned_world fields fields table_world)) 0 ''IndicatorValue''
       = Some (Some ''Inf'')
   \<and> cell_at (staging (cleaned_world fields fields table_world)) 0 ''upperCI95''
       = Some (Some '''')"
proof -
  have "sentinel_cleaner table_world = Inr (cleaned_world fields fields table_world)"
    by (simp add: sentinel_cleaner_def cleanup_loop_closed Let_def fields_def table_world_def
        staged_table_def)
  moreover have "trace (cleaned_world fields fields table_world) = map Cleaned fields"
    by (simp add: cleaned_world_def table_world_def)
  moreover have st: "staging (cleaned_world fields fields table_world) = staging table_world"
    by (simp add: cleaned_world_def)
  moreover have "cell_at (staging table_world) 0 ''numerator'' = Some (Some ''NaN'')"
    "cell_at (staging table_world) 0 ''IndicatorValue'' = Some (Some ''Inf'')"
    "cell_at (staging table_world) 0 ''upperCI95'' = Some (Some '''')"
    by (simp_all add: cell_at_def table_world_def staged_table_def)
  ultimately show ?thesis by (simp only: st simp_thms)
qed

subsection \<open>One file, and the loop over the folder\<close>

lemma map_of_dir_remove: "map_of (dir_remove n d) g = (if g = n then None else map_of d g)"
  by (induction d) (auto simp: dir_remove_def)

lemma map_of_dir_put: "map_of (dir_put n f d) g = (if g = n then Some f else map_of d g)"
  by (simp add: dir_put_def map_of_dir_remove map_add_def split: option.splits)

lemma process_file_other: "\<not> endswith f ''.csv'' \<Longrightarrow> process_file f w = Inr w"
  by (simp add: process_file_def)

lemma process_file_Inr:
  assumes "endswith f ''.csv''" and "process_file f w = Inr w'"
  shows "\<exists>df t a. map_of (source_dir w) f = Some (Some df)
           \<and> to_sql (rename_aliases df) (staging w) = Inr t
           \<and> archive_dir w = Some a
           \<and> w' = w\<lparr>source_dir := dir_remove f (source_dir w),
                    archive_dir := Some (dir_put f (Some df) a),
                    staging := t,
                    trace := trace w @ [Loaded f, Moved f]\<rparr>"
proof -
  from assms obtain df where df: "map_of (source_dir w) f = Some (Some df)"
    by (auto simp: process_file_def read_csv_def split: option.splits)
  then have rd: "read_csv f w = Inr df" by (simp add: read_csv_def)
  from assms rd obtain t where t: "to_sql (rename_aliases df) (staging w) = Inr t"
    by (cases "to_sql (rename_aliases df) (staging w)") (auto simp: process_file_def)
  from assms rd t obtain a where a: "archive_dir w = Some a"
    by (cases "archive_dir w") (auto simp: process_file_def shutil_move_def df)
  from assms rd t a df have "w' = w\<lparr>source_dir := dir_remove f (source_dir w),
                    archive_dir := Some (dir_put f (Some df) a),
                    staging := t,
                    trace := trace w @ [Loaded f, Moved f]\<rparr>"
    by (auto simp add: process_file_def shutil_move_def)
  with df t a show ?thesis by blast
qed

lemma process_file_Inl:
  assumes "process_file f w = Inl (e, w')"
  shows "(e = LoadError \<and> w' = w)
       \<or> (e = MoveError \<and> archive_dir w = None
            \<and> (\<exists>df t. map_of (source_dir w) f = Some (Some df)
                   \<and> to_sql (rename_aliases df) (staging w) = Inr t
                   \<and> w' = w\<lparr>staging := t, trace := trace w @ [Loaded f]\<rparr>))"
proof (cases "endswith f ''.csv''")
  case False
  with assms show ?thesis by (simp add: process_file_def)
next
  case csv: True
  show ?thesis
  proof (cases "read_csv f w")
    case (Inl x)
    then have "x = LoadError" by (auto simp: read_csv_def split: option.splits)
    with assms csv Inl show ?thesis by (simp add: process_file_def)
  next
    case (Inr df)
    then have df: "map_of (source_dir w) f = Some (Some df)"
      by (auto simp: read_csv_def split: option.splits)
    show ?thesis
    proof (cases "to_sql (rename_aliases df) (staging w)")
      case (Inl x)
      then have "x = LoadError" by (auto simp: to_sql_def split: if_splits)
      with assms csv Inr Inl show ?thesis by (simp add: process_file_def)
    next
      case t: (Inr t)
      show ?thesis
      proof (cases "archive_dir w")
        case None
        with assms csv Inr t df show ?thesis
          by (simp add: process_file_def shutil_move_def)
      next
        case (Some a)
        with assms csv Inr t df show ?thesis
          by (simp add: process_file_def shutil_move_def)
      qed
    qed
  qed
qed

lemma file_loop_append:
  "file_loop (xs @ ys) w = (case file_loop xs w of Inl x \<Rightarrow> Inl x | Inr w' \<Rightarrow> file_loop ys w')"
  by (induction xs arbitrary: w) (auto split: sum.splits)

lemma file_loop_Inl:
  "file_loop fs w = Inl (e, w2) \<Longrightarrow>
     \<exists>pre f post w1. fs = pre @ f # post \<and> file_loop pre w = Inr w1 \<and> process_file f w1 = Inl (e, w2)"
proof (induction fs arbitrary: w)
  case Nil
  then show ?case by simp
next
  case (Cons g rest)
  show ?case
  proof (cases "process_file g w")
    case (Inl x)
    with Cons.prems have "process_file g w = Inl (e, w2)" by simp
    then have "g # rest = [] @ g # rest \<and> file_loop [] w = Inr w \<and> process_file g w = Inl (e, w2)"
      by simp
    then show ?thesis by blast
  next
    case (Inr w')
    with Cons.prems have "file_loop rest w' = Inl (e, w2)" by simp
    from Cons.IH [OF this] obtain pre f post w1
      where *: "rest = pre @ f # post" "file_loop pre w' = Inr w1" "process_file f w1 = Inl (e, w2)"
      by blast
    have "g # rest = (g # pre) @ f # post \<and> file_loop (g # pre) w = Inr w1
            \<and> process_file f w1 = Inl (e, w2)"
      using * Inr by simp
    then show ?thesis by blast
  qed
qed

lemma file_loop_Cons_Inr:
  assumes "file_loop (f # fs) w = Inr w'"
  obtains w1 where "process_file f w = Inr w1" and "file_loop fs w1 = Inr w'"
  using assms by (cases "process_file f w") auto

lemma file_events_Nil: "file_events [] = []"
  by (simp add: file_events_def)

lemma file_events_Cons:
  "file_events (f # fs) = (if endswith f ''.csv'' then [Loaded f, Moved f] else []) @ file_events fs"
  by (simp add: file_events_def)

lemma file_events_append: "file_events (xs @ ys) = file_events xs @ file_events ys"
  by (simp add: file_events_def)

lemma Loaded_file_events: "Loaded g \<in> set (file_events fs) \<longleftrightarrow> g \<in> set fs \<and> endswith g ''.csv''"
  by (induction fs) (auto simp: file_events_Cons file_events_Nil)

lemma Moved_file_events: "Moved g \<in> set (file_events fs) \<longleftrightarrow> g \<in> set fs \<and> endswith g ''.csv''"
  by (induction fs) (auto simp: file_events_Cons file_events_Nil)

lemma Cleaned_file_events: "Cleaned c \<notin> set (file_events fs)"
  by (induction fs) (auto simp: file_events_Cons file_events_Nil)

text \<open>What one successful step on a CSV file does to the observations.\<close>

lemma process_file_Inr_effect:
  assumes "endswith f ''.csv''" and "process_file f w = Inr w'"
  shows "trace w' = trace w @ [Loaded f, Moved f]"
    and "log_lines w' = log_lines w"
    and "map_of (source_dir w') g = (if g = f then None else map_of (source_dir w) g)"
    and "archived w' g = (if g = f then map_of (source_dir w) f else archived w g)"
    and "map_of (source_dir w) f \<noteq> None"
    and "archive_dir w \<noteq> None"
  using process_file_Inr [OF assms]
  by (auto simp: map_of_dir_remove map_of_dir_put archived_def)

lemma file_loop_trace:
  "file_loop fs w = Inr w' \<Longrightarrow> trace w' = trace w @ file_events fs"
proof (induction fs arbitrary: w)
  case Nil
  then show ?case by (simp add: file_events_def)
next
  case (Cons f fs)
  from Cons.prems(1) obtain w1 where 1: "process_file f w = Inr w1" and 2: "file_loop fs w1 = Inr w'"
    by (rule file_loop_Cons_Inr)
  show ?case
  proof (cases "endswith f ''.csv''")
    case True
    from process_file_Inr_effect(1) [OF True 1] Cons.IH [OF 2] True
    show ?thesis by (simp add: file_events_Cons)
  next
    case False
    with 1 have "w1 = w" by (simp add: process_file_other)
    with Cons.IH [OF 2] False show ?thesis by (simp add: file_events_Cons)
  qed
qed

lemma file_loop_log:
  "file_loop fs w = Inr w' \<Longrightarrow> log_lines w' = log_lines w"
proof (induction fs arbitrary: w)
  case Nil
  then show ?case by simp
next
  case (Cons f fs)
  from Cons.prems(1) obtain w1 where 1: "process_file f w = Inr w1" and 2: "file_loop fs w1 = Inr w'"
    by (rule file_loop_Cons_Inr)
  show ?case
  proof (cases "endswith f ''.csv''")
    case True
    from process_file_Inr_effect(2) [OF True 1] Cons.IH [OF 2]
    show ?thesis by simp
  next
    case False
    with 1 have "w1 = w" by (simp add: process_file_other)
    with Cons.IH [OF 2] show ?thesis by simp
  qed
qed

lemma file_loop_source:
  "file_loop fs w = Inr w' \<Longrightarrow>
     map_of (source_dir w') g =
       (if endswith g ''.csv'' \<and> g \<in> set fs then None else map_of (source_dir w) g)"
proof (induction fs arbitrary: w)
  case Nil
  then show ?case by simp
next
  case (Cons f fs)
  from Cons.prems(1) obtain w1 where 1: "process_file f w = Inr w1" and 2: "file_loop fs w1 = Inr w'"
    by (rule file_loop_Cons_Inr)
  show ?case
  proof (cases "endswith f ''.csv''")
    case True
    from process_file_Inr_effect(3) [OF True 1, of g] Cons.IH [OF 2] True
    show ?thesis by auto
  next
    case False
    with 1 have "w1 = w" by (simp add: process_file_other)
    with Cons.IH [OF 2] False show ?thesis by auto
  qed
qed

lemma file_loop_archived_other:
  "file_loop fs w = Inr w' \<Longrightarrow> \<not> (endswith g ''.csv'' \<and> g \<in> set fs) \<Longrightarrow>
     archived w' g = archived w g"
proof (induction fs arbitrary: w)
  case Nil
  then show ?case by simp
next
  case (Cons f fs)
  from Cons.prems(1) obtain w1 where 1: "process_file f w = Inr w1" and 2: "file_loop fs w1 = Inr w'"
    by (rule file_loop_Cons_Inr)
  from Cons.prems(2) have g: "\<not> (endswith g ''.csv'' \<and> g \<in> set fs)" by simp
  show ?case
  proof (cases "endswith f ''.csv''")
    case True
    with Cons.prems(2) have "g \<noteq> f" by auto
    with process_file_Inr_effect(4) [OF True 1, of g] Cons.IH [OF 2 g]
    show ?thesis by simp
  next
    case False
    with 1 have "w1 = w" by (simp add: process_file_other)
    with Cons.IH [OF 2 g] show ?thesis by simp
  qed
qed

lemma file_loop_archived:
  "file_loop fs w = Inr w' \<Longrightarrow> g \<in> set fs \<Longrightarrow> endswith g ''.csv'' \<Longrightarrow>
     archived w' g = map_of (source_dir w) g \<and> map_of (source_dir w) g \<noteq> None"
proof (induction fs arbitrary: w)
  case Nil
  then show ?case by simp
next
  case (Cons f fs)
  from Cons.prems(1) obtain w1 where 1: "process_file f w = Inr w1" and 2: "file_loop fs w1 = Inr w'"
    by (rule file_loop_Cons_Inr)
  show ?case
  proof (cases "g \<in> set fs")
    case True
    from Cons.IH [OF 2 True Cons.prems(3)]
    have *: "archived w' g = map_of (source_dir w1) g" "map_of (source_dir w1) g \<noteq> None"
      by simp_all
    show ?thesis
    proof (cases "endswith f ''.csv''")
      case csv: True
      from process_file_Inr_effect(3) [OF csv 1, of g] * show ?thesis
        by (auto split: if_splits)
    next
      case False
      with 1 have "w1 = w" by (simp add: process_file_other)
      with * show ?thesis by simp
    qed
  next
    case False
    with Cons.prems(2) have gf: "g = f" by simp
    with Cons.prems(3) have csv: "endswith f ''.csv''" by simp
    from False have "\<not> (endswith g ''.csv'' \<and> g \<in> set fs)" by simp
    from file_loop_archived_other [OF 2 this]
      process_file_Inr_effect(4) [OF csv 1, of g] process_file_Inr_effect(5) [OF csv 1] gf
    show ?thesis by simp
  qed
qed

subsection \<open>Renaming and appending\<close>

lemma columns_rename_aliases: "columns (rename_aliases df) = map canonical (columns df)"
  by (simp add: rename_aliases_def rename_def canonical_def Let_def)

lemma rows_rename_aliases: "rows (rename_aliases df) = rows df"
  by (simp add: rename_aliases_def rename_def Let_def)

lemma to_sql_Inr:
  assumes "to_sql df t = Inr t'"
  shows "tcols t' = tcols t"
    and "trows t' = trows t @ map (insert_row (tcols t) (columns df)) (rows df)"
    and "distinct (columns df)"
    and "rows df \<noteq> [] \<Longrightarrow> set (columns df) \<subseteq> set (tcols t)"
  using assms by (auto simp: to_sql_def list_all_iff split: if_splits)

lemma map_of_insert_row:
  "c \<in> set tc \<Longrightarrow>
     map_of (insert_row tc cs vals) c =
       Some (case map_of (zip cs vals) c of None \<Rightarrow> None | Some v \<Rightarrow> v)"
  by (induction tc) (auto simp: insert_row_def)

lemma map_of_zip_at:
  "distinct cs \<Longrightarrow> j < length cs \<Longrightarrow> j < length vals \<Longrightarrow>
     map_of (zip cs vals) (cs ! j) = Some (vals ! j)"
proof (induction cs arbitrary: j vals)
  case Nil
  then show ?case by simp
next
  case (Cons c cs)
  then obtain v vs where vals: "vals = v # vs" by (cases vals) auto
  show ?case
  proof (cases j)
    case 0
    then show ?thesis by (simp add: vals)
  next
    case (Suc i)
    with Cons.prems vals have "i < length cs" "i < length vs" "distinct cs" "cs ! i \<noteq> c"
      by auto
    with Cons.IH [of i vs] show ?thesis by (simp add: Suc vals)
  qed
qed

lemma insert_row_values:
  "(c, v) \<in> set (insert_row tc cs vals) \<Longrightarrow> v = None \<or> v \<in> set vals"
  by (auto simp: insert_row_def split: option.splits dest!: map_of_SomeD set_zip_rightD)

lemma process_file_staging:
  assumes "endswith f ''.csv''" and "read_csv f w = Inr df" and "process_file f w = Inr w'"
  shows "to_sql (rename_aliases df) (staging w) = Inr (staging w')"
proof -
  from assms(2) have "map_of (source_dir w) f = Some (Some df)"
    by (auto simp: read_csv_def split: option.splits)
  with process_file_Inr [OF assms(1,3)] show ?thesis by auto
qed


subsection \<open>The order of steps in a run\<close>

lemma aal_snoc_Loaded: "archived_after_load ls (es @ [Loaded f]) = archived_after_load ls es"
  by (induction ls es rule: archived_after_load.induct) auto

lemma aal_snoc_pair:
  "archived_after_load ls (es @ [Loaded f, Moved f]) = archived_after_load ls es"
  by (induction ls es rule: archived_after_load.induct) auto

lemma aal_Cleaned: "archived_after_load ls (map Cleaned cs)"
  by (induction cs) auto

lemma aal_snoc_Cleaned:
  "archived_after_load ls (es @ map Cleaned cs) = archived_after_load ls es"
  by (induction ls es rule: archived_after_load.induct) (auto simp: aal_Cleaned)

lemma aal_file_events:
  "archived_after_load ls (es @ file_events fs) = archived_after_load ls es"
proof (induction fs rule: rev_induct)
  case Nil
  show ?case by (simp add: file_events_Nil)
next
  case (snoc f fs)
  have "es @ file_events (fs @ [f]) =
      (if endswith f ''.csv'' then (es @ file_events fs) @ [Loaded f, Moved f]
       else es @ file_events fs)"
    by (simp add: file_events_append file_events_Cons file_events_Nil)
  with snoc show ?case by (simp add: aal_snoc_pair del: append_assoc)
qed

lemma aal_prefix: "archived_after_load ls (xs @ ys) \<Longrightarrow> archived_after_load ls xs"
  by (induction ls xs rule: archived_after_load.induct) auto

lemma process_file_Inl_effect:
  assumes "process_file f w = Inl (e, w')"
  shows "source_dir w' = source_dir w"
    and "archive_dir w' = archive_dir w"
    and "log_lines w' = log_lines w"
    and "trace w' = trace w @ (if e = MoveError then [Loaded f] else [])"
    and "e = LoadError \<Longrightarrow> w' = w"
  using process_file_Inl [OF assms] by auto

lemma state_of_cleanup_loop:
  "\<exists>ms. state_of (cleanup_loop fs w) =
     cleaned_world (takeWhile (\<lambda>c. c \<in> set (tcols (staging w))) fs) ms w"
  by (auto simp: cleanup_loop_closed Let_def state_of_def)

lemma cleaned_world_simps:
  "source_dir (cleaned_world ds ms w) = source_dir w"
  "archive_dir (cleaned_world ds ms w) = archive_dir w"
  "trace (cleaned_world ds ms w) = trace w @ map Cleaned ds"
  "archived (cleaned_world ds ms w) g = archived w g"
  "listdir (cleaned_world ds ms w) = listdir w"
  by (simp_all add: cleaned_world_def archived_def listdir_def)

lemma run_cases:
  obtains (abort) pre f post w1 e w2
    where "listdir w = pre @ f # post" and "file_loop pre w = Inr w1"
      and "process_file f w1 = Inl (e, w2)" and "run w = Inl (e, w2)"
  | (cleaned) w1
    where "file_loop (listdir w) w = Inr w1" and "run w = cleanup_loop fields w1"
proof (cases "file_loop (listdir w) w")
  case (Inl x)
  obtain e w2 where x: "x = (e, w2)" by (cases x)
  from file_loop_Inl [OF Inl [unfolded x]] obtain pre f post w1
    where "listdir w = pre @ f # post" "file_loop pre w = Inr w1" "process_file f w1 = Inl (e, w2)"
    by blast
  moreover have "run w = Inl (e, w2)" using Inl x by (simp add: run_def)
  ultimately show ?thesis by (rule abort)
next
  case (Inr w1)
  then have "run w = cleanup_loop fields w1" by (simp add: run_def sentinel_cleaner_def)
  with Inr show ?thesis by (rule cleaned)
qed

text \<open>The final state of a run, whatever its outcome, seen from the start.\<close>

lemma run_state:
  obtains fs es w1
    where "file_loop fs w = Inr w1"
      and "set fs \<subseteq> set (listdir w)"
      and "source_dir (state_of (run w)) = source_dir w1"
      and "archive_dir (state_of (run w)) = archive_dir w1"
      and "trace (state_of (run w)) = trace w1 @ es"
      and "\<And>g. \<not> endswith g ''.csv'' \<Longrightarrow> Loaded g \<notin> set es \<and> Moved g \<notin> set es"
      and "\<And>ls. archived_after_load ls (trace w1 @ es) = archived_after_load ls (trace w1)"
proof (cases w rule: run_cases)
  case (abort pre f post w1 e w2)
  note eff = process_file_Inl_effect [OF abort(3)]
  have csv: "e = MoveError \<Longrightarrow> endswith f ''.csv''"
    using abort(3) by (auto simp: process_file_def split: if_splits)
  show ?thesis
  proof (rule that [of pre w1 "if e = MoveError then [Loaded f] else []"])
    show "file_loop pre w = Inr w1" by fact
    show "set pre \<subseteq> set (listdir w)" using abort(1) by auto
    show "source_dir (state_of (run w)) = source_dir w1"
      by (simp add: abort(4) state_of_def eff)
    show "archive_dir (state_of (run w)) = archive_dir w1"
      by (simp add: abort(4) state_of_def eff)
    show "trace (state_of (run w)) = trace w1 @ (if e = MoveError then [Loaded f] else [])"
      by (simp add: abort(4) state_of_def eff)
    show "\<not> endswith g ''.csv'' \<Longrightarrow>
        Loaded g \<notin> set (if e = MoveError then [Loaded f] else [])
        \<and> Moved g \<notin> set (if e = MoveError then [Loaded f] else [])" for g
      using csv by auto
    show "archived_after_load ls (trace w1 @ (if e = MoveError then [Loaded f] else [])) =
        archived_after_load ls (trace w1)" for ls
      by (simp add: aal_snoc_Loaded)
  qed
next
  case (cleaned w1)
  from state_of_cleanup_loop [of fields w1] obtain ms
    where st: "state_of (run w) =
      cleaned_world (takeWhile (\<lambda>c. c \<in> set (tcols (staging w1))) fields) ms w1"
    by (auto simp: cleaned(2))
  let ?ds = "takeWhile (\<lambda>c. c \<in> set (tcols (staging w1))) fields"
  show ?thesis
  proof (rule that [of "listdir w" w1 "map Cleaned ?ds"])
    show "file_loop (listdir w) w = Inr w1" by fact
    show "set (listdir w) \<subseteq> set (listdir w)" by simp
    show "source_dir (state_of (run w)) = source_dir w1"
      by (simp add: st cleaned_world_simps)
    show "archive_dir (state_of (run w)) = archive_dir w1"
      by (simp add: st cleaned_world_simps)
    show "trace (state_of (run w)) = trace w1 @ map Cleaned ?ds"
      by (simp add: st cleaned_world_simps)
    show "Loaded g \<notin> set (map Cleaned ?ds) \<and> Moved g \<notin> set (map Cleaned ?ds)" for g
      by auto
    show "archived_after_load ls (trace w1 @ map Cleaned ?ds) = archived_after_load ls (trace w1)"
      for ls
      by (rule aal_snoc_Cleaned)
  qed
qed

subsection \<open>What a loaded file leaves in the table\<close>

lemma process_a_csv: "process_file ''a.csv'' folder_world = Inr loaded_world"
  by (simp add: process_file_def endswith_def read_csv_def folder_world_def a_csv_def
      rename_aliases_def rename_def to_sql_def staged_table_def insert_row_def
      shutil_move_def dir_remove_def dir_put_def loaded_world_def a_row_def)

text \<open>
  C3. Every row of a successfully loaded CSV file is appended to the staging table: the
  table grows by the rows of the file, and the value a row has in a column of the file
  is the cell of the appended row in the column \<^verbatim>\<open>Column_0\<close> when the file names that
  column \<^verbatim>\<open>Unnamed: 0\<close>, \<^verbatim>\<open>ValueID\<close> or \<^verbatim>\<open>ID\<close>, and in the column of the same name
  otherwise.
\<close>

theorem loaded_rows_renamed:
  assumes "endswith f ''.csv''"
    and "read_csv f w = Inr df"
    and "process_file f w = Inr w'"
    and "k < length (rows df)"
    and "j < length (columns df)"
    and "j < length (rows df ! k)"
  shows "length (trows (staging w')) = length (trows (staging w)) + length (rows df)
       \<and> (columns df ! j \<in> {''Unnamed: 0'', ''ValueID'', ''ID''} \<longrightarrow>
            cell_at (staging w') (length (trows (staging w)) + k) ''Column_0''
              = Some (rows df ! k ! j))
       \<and> (columns df ! j \<notin> {''Unnamed: 0'', ''ValueID'', ''ID''} \<longrightarrow>
            cell_at (staging w') (length (trows (staging w)) + k) (columns df ! j)
              = Some (rows df ! k ! j))"
proof -
  let ?cs = "columns (rename_aliases df)"
  let ?t = "staging w"
  note sql = process_file_staging [OF assms(1-3)]
  have ne: "rows (rename_aliases df) \<noteq> []"
    using assms(4) by (auto simp: rows_rename_aliases)
  have rows': "trows (staging w') = trows ?t @ map (insert_row (tcols ?t) ?cs) (rows df)"
    using to_sql_Inr(2) [OF sql] by (simp add: rows_rename_aliases)
  have dist: "distinct ?cs" by (rule to_sql_Inr(3) [OF sql])
  have sub: "set ?cs \<subseteq> set (tcols ?t)" by (rule to_sql_Inr(4) [OF sql ne])
  have j: "j < length ?cs" using assms(5) by (simp add: columns_rename_aliases)
  then have "?cs ! j \<in> set (tcols ?t)" using sub by (meson nth_mem subsetD)
  then have "map_of (insert_row (tcols ?t) ?cs (rows df ! k)) (?cs ! j) = Some (rows df ! k ! j)"
    using map_of_zip_at [OF dist j assms(6)] by (simp add: map_of_insert_row)
  then have cell: "cell_at (staging w') (length (trows ?t) + k) (canonical (columns df ! j))
      = Some (rows df ! k ! j)"
    using assms(4,5) by (simp add: cell_at_def rows' nth_append columns_rename_aliases)
  show ?thesis
    using cell by (auto simp: rows' canonical_def)
qed

theorem loaded_rows_renamed_witness:
  "endswith ''a.csv'' ''.csv''
   \<and> read_csv ''a.csv'' folder_world = Inr a_csv
   \<and> process_file ''a.csv'' folder_world = Inr loaded_world
   \<and> columns a_csv ! 0 = ''ID''
   \<and> cell_at (staging loaded_world) (length (trows (staging folder_world)) + 0) ''Column_0''
       = Some (rows a_csv ! 0 ! 0)
   \<and> columns a_csv ! 1 = ''numerator''
   \<and> cell_at (staging loaded_world) (length (trows (staging folder_world)) + 0) ''numerator''
       = Some (rows a_csv ! 0 ! 1)"
proof -
  have e: "endswith ''a.csv'' ''.csv''" by (simp add: endswith_def)
  have r: "read_csv ''a.csv'' folder_world = Inr a_csv"
    by (simp add: read_csv_def folder_world_def)
  have k: "0 < length (rows a_csv)" by (simp add: a_csv_def)
  have j0: "0 < length (columns a_csv)" "0 < length (rows a_csv ! 0)" by (simp_all add: a_csv_def)
  have j1: "1 < length (columns a_csv)" "1 < length (rows a_csv ! 0)" by (simp_all add: a_csv_def)
  have c0: "columns a_csv ! 0 = ''ID''" by (simp add: a_csv_def)
  have c1: "columns a_csv ! 1 = ''numerator''" by (simp add: a_csv_def)
  from loaded_rows_renamed [OF e r process_a_csv k j0] loaded_rows_renamed [OF e r process_a_csv k j1]
    e r process_a_csv c0 c1
  show ?thesis by simp
qed

text \<open>
  C8. Loading a file appends: the columns of the table stay, every row that was in the
  table is still there, unchanged and at its place, and the rows of the file follow
  them. Every cell of an appended row is NULL or the text of a cell of the file's row,
  as read: no value is converted to a number or a date.
\<close>

theorem load_appends_rows:
  assumes "endswith f ''.csv''"
    and "read_csv f w = Inr df"
    and "process_file f w = Inr w'"
  shows "tcols (staging w') = tcols (staging w)
       \<and> trows (staging w') =
           trows (staging w)
             @ map (insert_row (tcols (staging w)) (columns (rename_aliases df))) (rows df)
       \<and> (\<forall>k<length (trows (staging w)). trows (staging w') ! k = trows (staging w) ! k)
       \<and> (\<forall>k<length (rows df). \<forall>c v.
             (c, v) \<in> set (trows (staging w') ! (length (trows (staging w)) + k))
               \<longrightarrow> v = None \<or> v \<in> set (rows df ! k))"
proof -
  note sql = process_file_staging [OF assms]
  have rows': "trows (staging w') =
      trows (staging w)
        @ map (insert_row (tcols (staging w)) (columns (rename_aliases df))) (rows df)"
    using to_sql_Inr(2) [OF sql] by (simp add: rows_rename_aliases)
  have "v = None \<or> v \<in> set (rows df ! k)"
    if "k < length (rows df)"
      and "(c, v) \<in> set (trows (staging w') ! (length (trows (staging w)) + k))" for k c v
    using that by (simp add: rows' insert_row_values)
  moreover have "trows (staging w') ! k = trows (staging w) ! k"
    if "k < length (trows (staging w))" for k
    using that by (simp add: rows' nth_append)
  ultimately show ?thesis
    using to_sql_Inr(1) [OF sql] rows' by blast
qed

theorem load_appends_rows_witness:
  "endswith ''a.csv'' ''.csv''
   \<and> read_csv ''a.csv'' folder_world = Inr a_csv
   \<and> process_file ''a.csv'' folder_world = Inr loaded_world
   \<and> tcols (staging loaded_world) = tcols (staging folder_world)
   \<and> trows (staging loaded_world) ! 0 = trows (staging folder_world) ! 0
   \<and> (''Column_0'', Some ''7'')
        \<in> set (trows (staging loaded_world) ! (length (trows (staging folder_world)) + 0))
   \<and> (Some ''7'' = None \<or> Some ''7'' \<in> set (rows a_csv ! 0))"
proof -
  have e: "endswith ''a.csv'' ''.csv''" by (simp add: endswith_def)
  have r: "read_csv ''a.csv'' folder_world = Inr a_csv"
    by (simp add: read_csv_def folder_world_def)
  have old: "0 < length (trows (staging folder_world))"
    by (simp add: folder_world_def staged_table_def)
  have new: "0 < length (rows a_csv)" by (simp add: a_csv_def)
  have cell: "(''Column_0'', Some ''7'')
      \<in> set (trows (staging loaded_world) ! (length (trows (staging folder_world)) + 0))"
    by (simp add: loaded_world_def folder_world_def staged_table_def a_row_def)
  note inst = load_appends_rows [OF e r process_a_csv]
  from inst have "tcols (staging loaded_world) = tcols (staging folder_world)" by blast
  moreover from inst old have "trows (staging loaded_world) ! 0 = trows (staging folder_world) ! 0"
    by blast
  moreover from inst new cell have "Some ''7'' = None \<or> Some ''7'' \<in> set (rows a_csv ! 0)"
    by blast
  ultimately show ?thesis using e r process_a_csv cell by blast
qed

text \<open>
  C10, as the code has it. A CSV file with a header and no data row is processed when
  its header gives no two columns the same name once the aliases are renamed, and the
  archive folder exists: nothing is appended, so the staging table is exactly as before,
  and the file is moved to the archive folder.
\<close>

theorem header_only_file_processed:
  assumes "endswith f ''.csv''"
    and "map_of (source_dir w) f = Some (Some df)"
    and "rows df = []"
    and "distinct (columns (rename_aliases df))"
    and "archive_dir w = Some a"
  shows "\<exists>w'. process_file f w = Inr w'
           \<and> staging w' = staging w
           \<and> archived w' f = Some (Some df)
           \<and> f \<notin> set (listdir w')
           \<and> trace w' = trace w @ [Loaded f, Moved f]"
  using assms
  by (auto simp: process_file_def read_csv_def to_sql_def rows_rename_aliases shutil_move_def
      archived_def map_of_dir_put listdir_def dir_remove_def)

theorem header_only_file_processed_witness:
  "endswith ''h.csv'' ''.csv''
   \<and> map_of (source_dir header_world) ''h.csv'' = Some (Some header_csv)
   \<and> rows header_csv = []
   \<and> distinct (columns (rename_aliases header_csv))
   \<and> archive_dir header_world = Some []
   \<and> (\<exists>w'. process_file ''h.csv'' header_world = Inr w'
          \<and> staging w' = staging header_world
          \<and> archived w' ''h.csv'' = Some (Some header_csv)
          \<and> ''h.csv'' \<notin> set (listdir w')
          \<and> trace w' = trace header_world @ [Loaded ''h.csv'', Moved ''h.csv''])"
proof -
  have e: "endswith ''h.csv'' ''.csv''" by (simp add: endswith_def)
  have m: "map_of (source_dir header_world) ''h.csv'' = Some (Some header_csv)"
    by (simp add: header_world_def)
  have r: "rows header_csv = []" by (simp add: header_csv_def)
  have d: "distinct (columns (rename_aliases header_csv))"
    by (simp add: header_csv_def rename_aliases_def rename_def)
  have a: "archive_dir header_world = Some []" by (simp add: header_world_def)
  from header_only_file_processed [OF e m r d a] e m r d a show ?thesis by blast
qed

text \<open>
  The claim C10 as it is written, for every file with a header and no data row, fails on
  the file whose header is \<^verbatim>\<open>ID,ValueID\<close>: both columns are named \<^verbatim>\<open>Column_0\<close> after the
  renames, the append refuses the frame, and the run of the loop body ends with a load
  error, the file still in its folder and not in the archive.
\<close>

theorem header_only_file_counterexample:
  "endswith ''h2.csv'' ''.csv''
   \<and> read_csv ''h2.csv'' two_alias_header_world = Inr two_alias_header_csv
   \<and> rows two_alias_header_csv = []
   \<and> process_file ''h2.csv'' two_alias_header_world = Inl (LoadError, two_alias_header_world)
   \<and> map_of (source_dir two_alias_header_world) ''h2.csv'' = Some (Some two_alias_header_csv)
   \<and> archived two_alias_header_world ''h2.csv'' = None"
  by (simp add: endswith_def read_csv_def process_file_def two_alias_header_world_def
      two_alias_header_csv_def rename_aliases_def rename_def to_sql_def archived_def)

subsection \<open>Files with several aliases\<close>

lemma count_canonical:
  "length (filter (\<lambda>c. c \<in> {''Unnamed: 0'', ''ValueID'', ''ID''}) cs)
     \<le> count_list (map canonical cs) ''Column_0''"
  by (induction cs) (auto simp: canonical_def)

text \<open>
  C4, as the code has it. The three renames only relabel: each column named
  \<^verbatim>\<open>Unnamed: 0\<close>, \<^verbatim>\<open>ValueID\<close> or \<^verbatim>\<open>ID\<close> is named \<^verbatim>\<open>Column_0\<close> afterwards, at its place and
  with its values, and no column is dropped or overwritten. A file with more than one
  of the aliases therefore gives a frame with more than one column named \<^verbatim>\<open>Column_0\<close>.
\<close>

theorem aliases_relabelled_in_place:
  "columns (rename_aliases df) =
     map (\<lambda>c. if c \<in> {''Unnamed: 0'', ''ValueID'', ''ID''} then ''Column_0'' else c) (columns df)
   \<and> rows (rename_aliases df) = rows df
   \<and> (1 < length (filter (\<lambda>c. c \<in> {''Unnamed: 0'', ''ValueID'', ''ID''}) (columns df))
        \<longrightarrow> 1 < count_list (columns (rename_aliases df)) ''Column_0'')"
proof -
  have "columns (rename_aliases df) =
     map (\<lambda>c. if c \<in> {''Unnamed: 0'', ''ValueID'', ''ID''} then ''Column_0'' else c) (columns df)"
    by (simp add: rename_aliases_def rename_def Let_def)
  moreover have "1 < count_list (columns (rename_aliases df)) ''Column_0''"
    if "1 < length (filter (\<lambda>c. c \<in> {''Unnamed: 0'', ''ValueID'', ''ID''}) (columns df))"
    using that count_canonical [of "columns df"] by (simp add: columns_rename_aliases)
  ultimately show ?thesis by (simp add: rows_rename_aliases)
qed

theorem aliases_relabelled_in_place_witness:
  "1 < length (filter (\<lambda>c. c \<in> {''Unnamed: 0'', ''ValueID'', ''ID''}) (columns two_alias_csv))
   \<and> 1 < count_list (columns (rename_aliases two_alias_csv)) ''Column_0''
   \<and> rows (rename_aliases two_alias_csv) = rows two_alias_csv"
proof -
  have "1 < length (filter (\<lambda>c. c \<in> {''Unnamed: 0'', ''ValueID'', ''ID''}) (columns two_alias_csv))"
    by (simp add: two_alias_csv_def)
  with aliases_relabelled_in_place [of two_alias_csv] show ?thesis by blast
qed

text \<open>
  The claim C4 as it is written fails on a file with the columns \<^verbatim>\<open>ID\<close> and \<^verbatim>\<open>ValueID\<close>,
  in this order: after the three renames the frame has two columns named \<^verbatim>\<open>Column_0\<close>,
  not one; the first holds the values of \<^verbatim>\<open>ID\<close>, whose rename is the last of the three,
  and the second those of \<^verbatim>\<open>ValueID\<close>.
\<close>

theorem last_rename_wins_counterexample:
  "columns two_alias_csv = [''ID'', ''ValueID'']
   \<and> rows two_alias_csv = [[Some ''i'', Some ''v'']]
   \<and> count_list (columns (rename_aliases two_alias_csv)) ''Column_0'' \<noteq> 1
   \<and> columns (rename_aliases two_alias_csv) = [''Column_0'', ''Column_0'']
   \<and> rows (rename_aliases two_alias_csv) = [[Some ''i'', Some ''v'']]"
  by (simp add: two_alias_csv_def rename_aliases_def rename_def)

subsection \<open>A folder without CSV files\<close>


lemma cleanup_loop_all:
  assumes "set fs \<subseteq> set (tcols (staging w))"
  shows "cleanup_loop fs w = Inr (cleaned_world fs fs w)"
proof -
  have "takeWhile (\<lambda>c. c \<in> set (tcols (staging w))) fs = fs"
    using assms by auto
  then show ?thesis
    by (subst cleanup_loop_closed) (simp add: Let_def del: takeWhile_eq_all_conv)
qed



subsection \<open>Whole runs\<close>

lemma archived_cong: "archive_dir w' = archive_dir w \<Longrightarrow> archived w' g = archived w g"
  by (simp add: archived_def)

lemma not_listed: "map_of (source_dir w) f = None \<Longrightarrow> f \<notin> set (listdir w)"
  by (simp add: listdir_def map_of_eq_None_iff)

text \<open>
  C2. After a run in which every load and every move succeeds, each file of the folder
  whose name ends in \<^verbatim>\<open>.csv\<close> is in the archive folder, with the content it had, and is
  no longer in the folder. A name that does not end in \<^verbatim>\<open>.csv\<close> is never loaded or
  moved, in any run: its entry in the folder and in the archive stay as they were and
  the run records no load and no move of it.
\<close>

theorem csv_files_archived:
  "(file_loop (listdir w) w = Inr w1 \<longrightarrow>
      (\<forall>f\<in>set (listdir w). endswith f ''.csv'' \<longrightarrow>
           archived (state_of (run w)) f = map_of (source_dir w) f
         \<and> archived (state_of (run w)) f \<noteq> None
         \<and> f \<notin> set (listdir (state_of (run w)))))
   \<and> (\<forall>f. \<not> endswith f ''.csv'' \<longrightarrow>
           map_of (source_dir (state_of (run w))) f = map_of (source_dir w) f
         \<and> archived (state_of (run w)) f = archived w f
         \<and> (Loaded f \<in> set (trace (state_of (run w))) \<longrightarrow> Loaded f \<in> set (trace w))
         \<and> (Moved f \<in> set (trace (state_of (run w))) \<longrightarrow> Moved f \<in> set (trace w)))"
proof (intro conjI impI allI ballI)
  fix f
  assume ok: "file_loop (listdir w) w = Inr w1" and f: "f \<in> set (listdir w)"
    and csv: "endswith f ''.csv''"
  from state_of_cleanup_loop [of fields w1] obtain ds ms
    where st: "state_of (run w) = cleaned_world ds ms w1"
    using ok by (auto simp: run_def sentinel_cleaner_def)
  from file_loop_archived [OF ok f csv]
  show "archived (state_of (run w)) f = map_of (source_dir w) f"
    and "archived (state_of (run w)) f \<noteq> None"
    by (simp_all add: st cleaned_world_simps)
  from file_loop_source [OF ok, of f] f csv have "map_of (source_dir w1) f = None" by simp
  then show "f \<notin> set (listdir (state_of (run w)))"
    by (simp add: st cleaned_world_simps not_listed)
next
  fix f
  assume other: "\<not> endswith f ''.csv''"
  obtain fs es v1
    where loop: "file_loop fs w = Inr v1"
      and src: "source_dir (state_of (run w)) = source_dir v1"
      and arc: "archive_dir (state_of (run w)) = archive_dir v1"
      and tr: "trace (state_of (run w)) = trace v1 @ es"
      and es: "\<And>g. \<not> endswith g ''.csv'' \<Longrightarrow> Loaded g \<notin> set es \<and> Moved g \<notin> set es"
    by (rule run_state [of w]) blast
  show "map_of (source_dir (state_of (run w))) f = map_of (source_dir w) f"
    using file_loop_source [OF loop, of f] other by (simp add: src)
  show "archived (state_of (run w)) f = archived w f"
    using file_loop_archived_other [OF loop, of f] other by (simp add: archived_cong [OF arc])
  have tr': "trace (state_of (run w)) = trace w @ file_events fs @ es"
    using file_loop_trace [OF loop] by (simp add: tr)
  show "Loaded f \<in> set (trace w)" if "Loaded f \<in> set (trace (state_of (run w)))"
    using that es [OF other] other by (auto simp: tr' Loaded_file_events)
  show "Moved f \<in> set (trace w)" if "Moved f \<in> set (trace (state_of (run w)))"
    using that es [OF other] other by (auto simp: tr' Moved_file_events)
qed

lemma listdir_folder_world: "listdir folder_world = [''a.csv'', ''notes.txt'']"
  by (simp add: listdir_def folder_world_def)

lemma notes_no_csv: "\<not> endswith ''notes.txt'' ''.csv''"
  by (simp add: endswith_def)

lemma loop_folder_world: "file_loop (listdir folder_world) folder_world = Inr loaded_world"
  by (simp add: listdir_folder_world process_a_csv process_file_other notes_no_csv)

lemma run_folder_world:
  "run folder_world = Inr (cleaned_world fields fields loaded_world)"
proof -
  have "file_loop (listdir folder_world) folder_world = Inr loaded_world"
    by (rule loop_folder_world)
  moreover have "set fields \<subseteq> set (tcols (staging loaded_world))"
    by (simp add: fields_def loaded_world_def staged_table_def)
  ultimately show ?thesis
    by (simp add: run_def sentinel_cleaner_def cleanup_loop_all)
qed

theorem csv_files_archived_witness:
  "file_loop (listdir folder_world) folder_world = Inr loaded_world
   \<and> ''a.csv'' \<in> set (listdir folder_world)
   \<and> endswith ''a.csv'' ''.csv''
   \<and> archived (state_of (run folder_world)) ''a.csv'' = map_of (source_dir folder_world) ''a.csv''
   \<and> archived (state_of (run folder_world)) ''a.csv'' \<noteq> None
   \<and> ''a.csv'' \<notin> set (listdir (state_of (run folder_world)))
   \<and> \<not> endswith ''notes.txt'' ''.csv''
   \<and> map_of (source_dir (state_of (run folder_world))) ''notes.txt''
       = map_of (source_dir folder_world) ''notes.txt''
   \<and> archived (state_of (run folder_world)) ''notes.txt'' = archived folder_world ''notes.txt''
   \<and> Loaded ''notes.txt'' \<notin> set (trace (state_of (run folder_world)))
   \<and> Moved ''notes.txt'' \<notin> set (trace (state_of (run folder_world)))"
proof -
  have a: "''a.csv'' \<in> set (listdir folder_world)" by (simp add: listdir_folder_world)
  have e: "endswith ''a.csv'' ''.csv''" by (simp add: endswith_def)
  have t: "Loaded ''notes.txt'' \<notin> set (trace folder_world)"
    "Moved ''notes.txt'' \<notin> set (trace folder_world)"
    by (simp_all add: folder_world_def)
  from csv_files_archived [of folder_world loaded_world] loop_folder_world a e notes_no_csv t
  show ?thesis by blast
qed

text \<open>
  C6. A file is moved only after it has been loaded. In a run that starts with no step
  done, at every point of the sequence of completed steps each move of a file has a load
  of that file before it; a file that the archive folder holds at the end and did not
  hold, or held differently, at the start has been loaded; and when loading a file
  raises, nothing has changed: the file is where it was and the archive is as it was.
  A run that ends with a load error ends in the state that the files before the failing
  one have left.
\<close>

theorem archive_only_after_load:
  "(trace w = [] \<longrightarrow>
      (\<forall>p. prefix p (trace (state_of (run w))) \<longrightarrow> archived_after_load [] p))
   \<and> (\<forall>g. archived (state_of (run w)) g \<noteq> archived w g \<longrightarrow>
          Loaded g \<in> set (trace (state_of (run w))))
   \<and> (process_file f v = Inl (LoadError, v') \<longrightarrow> v' = v)
   \<and> (run w = Inl (LoadError, w2) \<longrightarrow>
        (\<exists>pre h post. listdir w = pre @ h # post \<and> file_loop pre w = Inr w2
           \<and> process_file h w2 = Inl (LoadError, w2)
           \<and> (h \<notin> set pre \<longrightarrow>
                map_of (source_dir w2) h = map_of (source_dir w) h
              \<and> archived w2 h = archived w h)))"
proof (intro conjI impI allI)
  obtain fs es v1
    where loop: "file_loop fs w = Inr v1"
      and arc: "archive_dir (state_of (run w)) = archive_dir v1"
      and tr: "trace (state_of (run w)) = trace v1 @ es"
      and aal: "\<And>ls. archived_after_load ls (trace v1 @ es) = archived_after_load ls (trace v1)"
    by (rule run_state [of w]) blast
  have tr1: "trace v1 = trace w @ file_events fs"
    by (rule file_loop_trace [OF loop])
  {
    fix p
    assume start: "trace w = []" and p: "prefix p (trace (state_of (run w)))"
    have "archived_after_load [] (trace v1)"
      using aal_file_events [of "[]" "[]" fs] by (simp add: tr1 start)
    then have "archived_after_load [] (trace (state_of (run w)))"
      by (simp only: tr aal)
    with p show "archived_after_load [] p"
      by (auto simp: prefix_def dest: aal_prefix)
  }
  {
    fix g
    assume "archived (state_of (run w)) g \<noteq> archived w g"
    then have "archived v1 g \<noteq> archived w g"
      by (simp add: archived_cong [OF arc])
    with file_loop_archived_other [OF loop, of g] have "endswith g ''.csv'' \<and> g \<in> set fs"
      by blast
    then show "Loaded g \<in> set (trace (state_of (run w)))"
      by (simp add: tr tr1 Loaded_file_events)
  }
  {
    assume "process_file f v = Inl (LoadError, v')"
    then show "v' = v" by (rule process_file_Inl_effect(5)) simp
  }
  {
    assume err: "run w = Inl (LoadError, w2)"
    show "\<exists>pre h post. listdir w = pre @ h # post \<and> file_loop pre w = Inr w2
           \<and> process_file h w2 = Inl (LoadError, w2)
           \<and> (h \<notin> set pre \<longrightarrow>
                map_of (source_dir w2) h = map_of (source_dir w) h
              \<and> archived w2 h = archived w h)"
    proof (cases w rule: run_cases)
      case (abort pre h post w1 e w3)
      with err have e: "e = LoadError" and w3: "w3 = w2" by simp_all
      from process_file_Inl_effect(5) [OF abort(3) e] w3 have w1: "w1 = w2" by simp
      have "map_of (source_dir w2) h = map_of (source_dir w) h \<and> archived w2 h = archived w h"
        if "h \<notin> set pre"
        using that file_loop_source [OF abort(2), of h] file_loop_archived_other [OF abort(2), of h]
        by (simp add: w1)
      with abort(1,2,3) e w3 w1 show ?thesis by blast
    next
      case (cleaned w1)
      with err show ?thesis
        by (simp add: cleanup_loop_closed Let_def split: if_splits)
    qed
  }
qed

lemma trace_run_folder_world:
  "trace (state_of (run folder_world)) = [Loaded ''a.csv'', Moved ''a.csv''] @ map Cleaned fields"
  by (simp add: run_folder_world state_of_def cleaned_world_simps loaded_world_def)

lemma archived_run_folder_world:
  "archived (state_of (run folder_world)) ''a.csv'' = Some (Some a_csv)"
  by (simp add: run_folder_world state_of_def cleaned_world_simps loaded_world_def archived_def)

lemma process_a_csv_broken: "process_file ''a.csv'' broken_world = Inr broken_world_1"
  by (simp add: process_file_def endswith_def read_csv_def broken_world_def a_csv_def
      rename_aliases_def rename_def to_sql_def staged_table_def insert_row_def
      shutil_move_def dir_remove_def dir_put_def broken_world_1_def a_row_def)

lemma process_bad_csv: "process_file ''bad.csv'' broken_world_1 = Inl (LoadError, broken_world_1)"
  by (simp add: process_file_def endswith_def read_csv_def broken_world_1_def)

lemma listdir_broken_world: "listdir broken_world = [''a.csv''] @ ''bad.csv'' # [''c.csv'']"
  by (simp add: listdir_def broken_world_def)

lemma run_broken_world: "run broken_world = Inl (LoadError, broken_world_1)"
  by (simp add: run_def listdir_broken_world process_a_csv_broken process_bad_csv)

theorem archive_only_after_load_witness:
  "trace folder_world = []
   \<and> prefix [Loaded ''a.csv'', Moved ''a.csv''] (trace (state_of (run folder_world)))
   \<and> archived_after_load [] [Loaded ''a.csv'', Moved ''a.csv'']
   \<and> archived (state_of (run folder_world)) ''a.csv'' \<noteq> archived folder_world ''a.csv''
   \<and> Loaded ''a.csv'' \<in> set (trace (state_of (run folder_world)))
   \<and> process_file ''bad.csv'' broken_world_1 = Inl (LoadError, broken_world_1)
   \<and> run broken_world = Inl (LoadError, broken_world_1)
   \<and> (\<exists>pre h post. listdir broken_world = pre @ h # post
          \<and> file_loop pre broken_world = Inr broken_world_1
          \<and> process_file h broken_world_1 = Inl (LoadError, broken_world_1))"
proof -
  have start: "trace folder_world = []" by (simp add: folder_world_def)
  have pre: "prefix [Loaded ''a.csv'', Moved ''a.csv''] (trace (state_of (run folder_world)))"
    by (simp add: trace_run_folder_world)
  have "archived folder_world ''a.csv'' = None"
    by (simp add: archived_def folder_world_def)
  then have new: "archived (state_of (run folder_world)) ''a.csv'' \<noteq> archived folder_world ''a.csv''"
    by (simp add: archived_run_folder_world)
  note one = archive_only_after_load [of folder_world]
  note two = archive_only_after_load
    [of broken_world "''bad.csv''" broken_world_1 broken_world_1 broken_world_1]
  from one start pre have "archived_after_load [] [Loaded ''a.csv'', Moved ''a.csv'']"
    by blast
  moreover from one new have "Loaded ''a.csv'' \<in> set (trace (state_of (run folder_world)))"
    by blast
  moreover from two run_broken_world
  have "\<exists>pre h post. listdir broken_world = pre @ h # post
          \<and> file_loop pre broken_world = Inr broken_world_1
          \<and> process_file h broken_world_1 = Inl (LoadError, broken_world_1)"
    by blast
  ultimately show ?thesis
    using start pre new process_bad_csv run_broken_world by blast
qed

text \<open>
  C7. No error is caught or retried. When the load or the move of a file raises, the run
  ends there with that error, in the state reached: the steps done are those of the files
  before it (and the load of the file itself, when it is the move that raised), no cleanup
  statement has run, and a file later in the listing is where it was, neither loaded nor
  moved. When a cleanup statement raises, the run ends with that error after the
  statements before it, and the statements after it do not run; the table is as the
  loop over the files left it.
\<close>

theorem errors_abort_run:
  "(trace w = [] \<and> listdir w = pre @ f # post \<and> file_loop pre w = Inr w1
      \<and> process_file f w1 = Inl (e, w2) \<longrightarrow>
        run w = Inl (e, w2)
      \<and> trace w2 = file_events pre @ (if e = MoveError then [Loaded f] else [])
      \<and> (\<forall>c. Cleaned c \<notin> set (trace w2))
      \<and> (\<forall>g\<in>set post. g \<notin> set pre \<longrightarrow>
             map_of (source_dir w2) g = map_of (source_dir w) g
           \<and> archived w2 g = archived w g)
      \<and> (\<forall>g\<in>set post. g \<notin> set pre \<and> g \<noteq> f \<longrightarrow>
             Loaded g \<notin> set (trace w2) \<and> Moved g \<notin> set (trace w2)))
   \<and> (file_loop (listdir w) w = Inr v1 \<and> fields = ds @ c # rest
      \<and> set ds \<subseteq> set (tcols (staging v1)) \<and> c \<notin> set (tcols (staging v1)) \<longrightarrow>
        (\<exists>v2. run w = Inl (UpdateError, v2)
           \<and> trace v2 = trace v1 @ map Cleaned ds
           \<and> staging v2 = staging v1
           \<and> source_dir v2 = source_dir v1
           \<and> archive_dir v2 = archive_dir v1))"
proof (intro conjI impI; (elim conjE)?)
  assume start: "trace w = []" and ls: "listdir w = pre @ f # post"
    and pre: "file_loop pre w = Inr w1" and fail: "process_file f w1 = Inl (e, w2)"
  note eff = process_file_Inl_effect [OF fail]
  show "run w = Inl (e, w2)"
    by (simp add: run_def ls file_loop_append pre fail)
  show tr: "trace w2 = file_events pre @ (if e = MoveError then [Loaded f] else [])"
    using file_loop_trace [OF pre] by (simp add: eff(4) start)
  show "\<forall>c. Cleaned c \<notin> set (trace w2)"
    by (simp add: tr Cleaned_file_events)
  show "\<forall>g\<in>set post. g \<notin> set pre \<longrightarrow>
      map_of (source_dir w2) g = map_of (source_dir w) g \<and> archived w2 g = archived w g"
    using file_loop_source [OF pre] file_loop_archived_other [OF pre]
    by (simp add: eff(1) archived_cong [OF eff(2)])
  show "\<forall>g\<in>set post. g \<notin> set pre \<and> g \<noteq> f \<longrightarrow>
      Loaded g \<notin> set (trace w2) \<and> Moved g \<notin> set (trace w2)"
    by (simp add: tr Loaded_file_events Moved_file_events)
next
  assume loop: "file_loop (listdir w) w = Inr v1" and fs: "fields = ds @ c # rest"
    and ds: "set ds \<subseteq> set (tcols (staging v1))" and c: "c \<notin> set (tcols (staging v1))"
  have tw: "takeWhile (\<lambda>c. c \<in> set (tcols (staging v1))) fields = ds"
    using ds c by (simp add: fs subsetD)
  have ne: "ds \<noteq> fields" by (simp add: fs)
  have "run w = Inl (UpdateError, cleaned_world ds (take (Suc (length ds)) fields) v1)"
    using ne by (simp add: run_def loop sentinel_cleaner_def cleanup_loop_closed Let_def tw
        del: takeWhile_eq_all_conv)
  moreover have "staging (cleaned_world ds (take (Suc (length ds)) fields) v1) = staging v1"
    by (simp add: cleaned_world_def)
  ultimately show "\<exists>v2. run w = Inl (UpdateError, v2)
           \<and> trace v2 = trace v1 @ map Cleaned ds
           \<and> staging v2 = staging v1
           \<and> source_dir v2 = source_dir v1
           \<and> archive_dir v2 = archive_dir v1"
    by (simp add: cleaned_world_simps)
qed

lemma listdir_narrow_world: "listdir narrow_world = [''notes.txt'']"
  by (simp add: listdir_def narrow_world_def)

lemma loop_narrow_world: "file_loop (listdir narrow_world) narrow_world = Inr narrow_world"
  by (simp add: listdir_narrow_world process_file_other notes_no_csv)

theorem errors_abort_run_witness:
  "trace broken_world = []
   \<and> listdir broken_world = [''a.csv''] @ ''bad.csv'' # [''c.csv'']
   \<and> file_loop [''a.csv''] broken_world = Inr broken_world_1
   \<and> process_file ''bad.csv'' broken_world_1 = Inl (LoadError, broken_world_1)
   \<and> run broken_world = Inl (LoadError, broken_world_1)
   \<and> map_of (source_dir broken_world_1) ''c.csv'' = map_of (source_dir broken_world) ''c.csv''
   \<and> archived broken_world_1 ''c.csv'' = archived broken_world ''c.csv''
   \<and> Loaded ''c.csv'' \<notin> set (trace broken_world_1)
   \<and> Moved ''c.csv'' \<notin> set (trace broken_world_1)
   \<and> Cleaned ''numerator'' \<notin> set (trace broken_world_1)
   \<and> file_loop (listdir narrow_world) narrow_world = Inr narrow_world
   \<and> fields = [''numerator''] @ ''denominator'' # [''IndicatorValue'', ''lowerCI95'', ''upperCI95'']
   \<and> set [''numerator''] \<subseteq> set (tcols (staging narrow_world))
   \<and> ''denominator'' \<notin> set (tcols (staging narrow_world))
   \<and> (\<exists>v2. run narrow_world = Inl (UpdateError, v2)
          \<and> trace v2 = trace narrow_world @ map Cleaned [''numerator'']
          \<and> source_dir v2 = source_dir narrow_world
          \<and> archive_dir v2 = archive_dir narrow_world)"
proof -
  have start: "trace broken_world = []" by (simp add: broken_world_def)
  have pre: "file_loop [''a.csv''] broken_world = Inr broken_world_1"
    by (simp add: process_a_csv_broken)
  have later: "''c.csv'' \<in> set [''c.csv'']" "''c.csv'' \<notin> set [''a.csv'']" "''c.csv'' \<noteq> ''bad.csv''"
    by simp_all
  have fs: "fields = [''numerator''] @ ''denominator'' # [''IndicatorValue'', ''lowerCI95'', ''upperCI95'']"
    by (simp add: fields_def)
  have ds: "set [''numerator''] \<subseteq> set (tcols (staging narrow_world))"
    by (simp add: narrow_world_def)
  have c: "''denominator'' \<notin> set (tcols (staging narrow_world))"
    by (simp add: narrow_world_def)
  note files = errors_abort_run [where w = broken_world and pre = "[''a.csv'']"
      and f = "''bad.csv''" and post = "[''c.csv'']" and ?w1.0 = broken_world_1
      and e = LoadError and ?w2.0 = broken_world_1]
  note stmts = errors_abort_run [where w = narrow_world and ?v1.0 = narrow_world
      and ds = "[''numerator'']" and c = "''denominator''"
      and rest = "[''IndicatorValue'', ''lowerCI95'', ''upperCI95'']"]
  from files start listdir_broken_world pre process_bad_csv later
  have "run broken_world = Inl (LoadError, broken_world_1)
      \<and> map_of (source_dir broken_world_1) ''c.csv'' = map_of (source_dir broken_world) ''c.csv''
      \<and> archived broken_world_1 ''c.csv'' = archived broken_world ''c.csv''
      \<and> Loaded ''c.csv'' \<notin> set (trace broken_world_1)
      \<and> Moved ''c.csv'' \<notin> set (trace broken_world_1)
      \<and> Cleaned ''numerator'' \<notin> set (trace broken_world_1)"
    by blast
  moreover from stmts loop_narrow_world fs ds c
  have "\<exists>v2. run narrow_world = Inl (UpdateError, v2)
          \<and> trace v2 = trace narrow_world @ map Cleaned [''numerator'']
          \<and> source_dir v2 = source_dir narrow_world
          \<and> archive_dir v2 = archive_dir narrow_world"
    by blast
  ultimately show ?thesis
    using start listdir_broken_world pre process_bad_csv loop_narrow_world fs ds c by blast
qed

end
